theory Spec2Isabelle
  imports Main
begin

section \<open>Merkle tree: the object store\<close>

text \<open>
  The program is \<^verbatim>\<open>merkle_tree.py\<close>. Its nodes are mutable objects that point at each
  other (\<^verbatim>\<open>parent\<close>, \<^verbatim>\<open>left_child\<close>, \<^verbatim>\<open>right_child\<close>) and are compared by identity
  (\<^verbatim>\<open>Node\<close> defines no \<^verbatim>\<open>__eq__\<close>), so a node is an address into a store and \<^verbatim>\<open>==\<close> on
  nodes is equality of addresses. Python's \<^verbatim>\<open>None\<close> in a reference field is \<open>None\<close>.

  \<^verbatim>\<open>compute_hash\<close> is \<^verbatim>\<open>sha256(data.encode('utf-8')).hexdigest()\<close>, a library function:
  every operation takes it as the parameter \<open>H\<close>, a function from strings to strings.
\<close>

datatype Branch = left | right

type_synonym addr = nat

record Node =
  hash_value :: string
  data_value :: "string option"
  parent :: "addr option"
  left_child :: "addr option"
  right_child :: "addr option"

text \<open>
  An audit trail is a Python list of pairs \<^verbatim>\<open>(hash, Branch.left | Branch.right | None)\<close>.
  Trails are list objects that \<^verbatim>\<open>generate_audit_trail\<close> mutates with \<^verbatim>\<open>append\<close>, so they
  live in the store too.
\<close>

type_synonym trail = "(string \<times> Branch option) list"

record state =
  nodes :: "addr \<Rightarrow> Node"
  next_node :: addr
  lists :: "addr \<Rightarrow> trail"

record MerkleTree =
  root_node :: addr
  leaves :: "addr list"

text \<open>
  The only exception the modelled code can raise by itself is the attribute access on
  \<^verbatim>\<open>None\<close>. Unbounded recursion (which CPython cuts off with \<^verbatim>\<open>RecursionError\<close>) is the
  value \<open>None\<close> of the partial functions below.
\<close>

datatype error = AttributeError

text \<open>
  The list object that \<^verbatim>\<open>trail=[]\<close> creates, once, when \<^verbatim>\<open>def generate_audit_trail\<close> is
  executed. Every call that omits \<^verbatim>\<open>trail\<close> receives this same object.
\<close>

definition trail_default :: addr where
  "trail_default = 0"

definition init_state :: state where
  "init_state = \<lparr>nodes = (\<lambda>_. \<lparr>hash_value = [], data_value = None, parent = None,
                                left_child = None, right_child = None\<rparr>),
                 next_node = 0, lists = (\<lambda>_. [])\<rparr>"

text \<open>\<^verbatim>\<open>Node(hash_value, data_value)\<close>: a new object; the three links start as \<^verbatim>\<open>None\<close>.\<close>

definition new_Node :: "string \<Rightarrow> string option \<Rightarrow> state \<Rightarrow> addr \<times> state" where
  "new_Node h d s =
     (next_node s,
      s\<lparr>nodes := (nodes s)(next_node s :=
            \<lparr>hash_value = h, data_value = d, parent = None,
             left_child = None, right_child = None\<rparr>),
        next_node := Suc (next_node s)\<rparr>)"

text \<open>\<^verbatim>\<open>trail.append(item)\<close> on the list object at address \<open>t\<close>.\<close>

definition list_append :: "addr \<Rightarrow> string \<times> Branch option \<Rightarrow> state \<Rightarrow> state" where
  "list_append t item s = s\<lparr>lists := (lists s)(t := lists s t @ [item])\<rparr>"

section \<open>Construction\<close>

text \<open>
  \<^verbatim>\<open>build_leaves\<close>: the \<^verbatim>\<open>for\<close> loop over the chunks, with the list \<^verbatim>\<open>leaves\<close> it appends to.
\<close>

fun build_leaves_loop ::
  "(string \<Rightarrow> string) \<Rightarrow> string list \<Rightarrow> addr list \<Rightarrow> state \<Rightarrow> addr list \<times> state" where
  "build_leaves_loop H [] lvs s = (lvs, s)"
| "build_leaves_loop H (chunk # rest) lvs s =
     (case new_Node (H chunk) (Some chunk) s of
        (node, s1) \<Rightarrow> build_leaves_loop H rest (lvs @ [node]) s1)"

definition build_leaves :: "(string \<Rightarrow> string) \<Rightarrow> string list \<Rightarrow> state \<Rightarrow> addr list \<times> state" where
  "build_leaves H data_chunks s = build_leaves_loop H data_chunks [] s"

text \<open>
  The \<^verbatim>\<open>while i < num_leaves\<close> loop of \<^verbatim>\<open>build_parents\<close>, with its variables \<^verbatim>\<open>i\<close> and
  \<^verbatim>\<open>parents\<close>. The two tuple assignments store left to right.
\<close>

function build_parents_loop ::
  "(string \<Rightarrow> string) \<Rightarrow> addr list \<Rightarrow> nat \<Rightarrow> addr list \<Rightarrow> state \<Rightarrow> addr list \<times> state" where
  "build_parents_loop H lvs i parents s =
     (if i < length lvs then
        let l = lvs ! i;
            r = (if i + 1 < length lvs then lvs ! (i + 1) else lvs ! i)
        in case new_Node (H (hash_value (nodes s l) @ hash_value (nodes s r))) None s of
          (p, s1) \<Rightarrow>
            let s2 = s1\<lparr>nodes := (nodes s1)(p := (nodes s1 p)\<lparr>left_child := Some l\<rparr>)\<rparr>;
                s3 = s2\<lparr>nodes := (nodes s2)(p := (nodes s2 p)\<lparr>right_child := Some r\<rparr>)\<rparr>;
                s4 = s3\<lparr>nodes := (nodes s3)(l := (nodes s3 l)\<lparr>parent := Some p\<rparr>)\<rparr>;
                s5 = s4\<lparr>nodes := (nodes s4)(r := (nodes s4 r)\<lparr>parent := Some p\<rparr>)\<rparr>
            in build_parents_loop H lvs (i + 2) (parents @ [p]) s5
      else (parents, s))"
  by pat_completeness auto
termination
  by (relation "measure (\<lambda>(H, lvs, i, parents, s). length lvs - i)") auto

declare build_parents_loop.simps [simp del]

text \<open>
  \<^verbatim>\<open>build_parents\<close> calls itself on the list of parents. On the empty list that list is
  empty again, so the recursion need not end: not returning is \<open>None\<close>.
\<close>

partial_function (option) build_parents ::
  "(string \<Rightarrow> string) \<Rightarrow> addr list \<Rightarrow> state \<Rightarrow> (addr \<times> state) option" where
  "build_parents H lvs s =
     (if length lvs = 1 then Some (lvs ! 0, s)
      else case build_parents_loop H lvs 0 [] s of
        (parents, s') \<Rightarrow> build_parents H parents s')"

definition build_tree ::
  "(string \<Rightarrow> string) \<Rightarrow> string list \<Rightarrow> state \<Rightarrow> (MerkleTree \<times> state) option" where
  "build_tree H data_chunks s =
     (case build_leaves H data_chunks s of
        (lvs, s1) \<Rightarrow>
          (case build_parents H lvs s1 of
             None \<Rightarrow> None
           | Some (root, s2) \<Rightarrow> Some (\<lparr>root_node = root, leaves = lvs\<rparr>, s2)))"

section \<open>Audit trails\<close>

text \<open>
  \<^verbatim>\<open>generate_audit_trail(self, node, trail)\<close>. \<open>trail\<close> is the address of the list object
  that is appended to and returned. The walk follows \<^verbatim>\<open>parent\<close> links, which in an
  arbitrary store may form a cycle (no return: \<open>None\<close>) or end in \<^verbatim>\<open>None\<close> before the
  root is met (\<^verbatim>\<open>AttributeError\<close>).
\<close>

partial_function (option) generate_audit_trail ::
  "MerkleTree \<Rightarrow> addr \<Rightarrow> addr \<Rightarrow> state \<Rightarrow> (error + addr \<times> state) option" where
  "generate_audit_trail self node trail s =
     (if root_node self = node then
        Some (Inr (trail,
          list_append trail (hash_value (nodes s (root_node self)), None) s))
      else case parent (nodes s node) of
        None \<Rightarrow> Some (Inl AttributeError)
      | Some p \<Rightarrow>
          if left_child (nodes s p) = Some node then
            (case right_child (nodes s p) of
               None \<Rightarrow> Some (Inl AttributeError)
             | Some rc \<Rightarrow> generate_audit_trail self p trail
                 (list_append trail (hash_value (nodes s rc), Some right) s))
          else
            (case left_child (nodes s p) of
               None \<Rightarrow> Some (Inl AttributeError)
             | Some lc \<Rightarrow> generate_audit_trail self p trail
                 (list_append trail (hash_value (nodes s lc), Some left) s)))"

text \<open>
  \<^verbatim>\<open>get_audit_trail\<close>: the first leaf whose hash is the target decides; the call
  \<^verbatim>\<open>self.generate_audit_trail(leaf)\<close> omits \<^verbatim>\<open>trail\<close>, so it passes the default list
  object. The result is that list object (its address), or Python's \<^verbatim>\<open>None\<close>.
\<close>

definition get_audit_trail ::
  "MerkleTree \<Rightarrow> string \<Rightarrow> state \<Rightarrow> (error + addr option \<times> state) option" where
  "get_audit_trail self target_leaf_hash s =
     (case find (\<lambda>leaf. hash_value (nodes s leaf) = target_leaf_hash) (leaves self) of
        None \<Rightarrow> Some (Inr (None, s))
      | Some leaf \<Rightarrow>
          (case generate_audit_trail self leaf trail_default s of
             None \<Rightarrow> None
           | Some (Inl e) \<Rightarrow> Some (Inl e)
           | Some (Inr (t, s')) \<Rightarrow> Some (Inr (Some t, s'))))"

section \<open>Proof verification\<close>

text \<open>
  \<^verbatim>\<open>merkle_proof\<close>: the \<^verbatim>\<open>for\<close> loop over \<^verbatim>\<open>trail[:-1]\<close> (all items but the last; the empty
  list for a trail of length 0 or 1), then the comparison.
\<close>

fun merkle_proof_loop :: "(string \<Rightarrow> string) \<Rightarrow> string \<Rightarrow> trail \<Rightarrow> string" where
  "merkle_proof_loop H current_hash [] = current_hash"
| "merkle_proof_loop H current_hash (item # rest) =
     (if snd item = Some left
      then merkle_proof_loop H (H (fst item @ current_hash)) rest
      else merkle_proof_loop H (H (current_hash @ fst item)) rest)"

definition merkle_proof :: "(string \<Rightarrow> string) \<Rightarrow> string \<Rightarrow> string \<Rightarrow> trail \<Rightarrow> bool" where
  "merkle_proof H root_hash leaf_hash trail =
     (merkle_proof_loop H leaf_hash (butlast trail) = root_hash)"

text \<open>
  Python does not type the trail. The second component of an item may be any value:
  a member of \<^verbatim>\<open>Branch\<close>, \<^verbatim>\<open>None\<close>, or something else (represented here by a string,
  for instance its \<^verbatim>\<open>repr\<close>). \<^verbatim>\<open>item[1] == Branch.left\<close> is true for \<^verbatim>\<open>Branch.left\<close> only.
  This is the same function \<^verbatim>\<open>merkle_proof\<close> on such lists of pairs.
\<close>

datatype marker = Side Branch | NoSide | Unrecognized string

fun merkle_proof_py_loop ::
  "(string \<Rightarrow> string) \<Rightarrow> string \<Rightarrow> (string \<times> marker) list \<Rightarrow> string" where
  "merkle_proof_py_loop H current_hash [] = current_hash"
| "merkle_proof_py_loop H current_hash (item # rest) =
     (if snd item = Side left
      then merkle_proof_py_loop H (H (fst item @ current_hash)) rest
      else merkle_proof_py_loop H (H (current_hash @ fst item)) rest)"

definition merkle_proof_py ::
  "(string \<Rightarrow> string) \<Rightarrow> string \<Rightarrow> string \<Rightarrow> (string \<times> marker) list \<Rightarrow> bool" where
  "merkle_proof_py H root_hash leaf_hash trail =
     (merkle_proof_py_loop H leaf_hash (butlast trail) = root_hash)"

section \<open>A concrete hash for closed instances\<close>

text \<open>
  All theorems below hold for every \<open>H\<close>. Where a closed instance is evaluated, \<open>H\<close> is
  this injective stand-in, which only tags its argument.
\<close>

definition toy_hash :: "string \<Rightarrow> string" where
  "toy_hash x = CHR ''#'' # x"

section \<open>Notions used in the proofs\<close>

text \<open>
  One pass of the loop body of \<^verbatim>\<open>build_parents\<close> (lines 66 to 72) for the pair \<open>(l, r)\<close>,
  and the loop as a recursion over the level, two nodes at a time. \<open>right_of lv j\<close> is
  the right partner of \<open>lv ! (2 * j)\<close>: the next node, or the node itself at the end of
  an odd level.
\<close>

definition link :: "(string \<Rightarrow> string) \<Rightarrow> addr \<Rightarrow> addr \<Rightarrow> state \<Rightarrow> state" where
  "link H l r s =
     (case new_Node (H (hash_value (nodes s l) @ hash_value (nodes s r))) None s of
        (p, s1) \<Rightarrow>
          let s2 = s1\<lparr>nodes := (nodes s1)(p := (nodes s1 p)\<lparr>left_child := Some l\<rparr>)\<rparr>;
              s3 = s2\<lparr>nodes := (nodes s2)(p := (nodes s2 p)\<lparr>right_child := Some r\<rparr>)\<rparr>;
              s4 = s3\<lparr>nodes := (nodes s3)(l := (nodes s3 l)\<lparr>parent := Some p\<rparr>)\<rparr>
          in s4\<lparr>nodes := (nodes s4)(r := (nodes s4 r)\<lparr>parent := Some p\<rparr>)\<rparr>)"

fun pair_up :: "(string \<Rightarrow> string) \<Rightarrow> addr list \<Rightarrow> state \<Rightarrow> addr list \<times> state" where
  "pair_up H [] s = ([], s)"
| "pair_up H [a] s = ([next_node s], link H a a s)"
| "pair_up H (a # b # rest) s =
     (case pair_up H rest (link H a b s) of (ps, s') \<Rightarrow> (next_node s # ps, s'))"

definition right_of :: "addr list \<Rightarrow> nat \<Rightarrow> addr" where
  "right_of lv j = (if 2 * j + 1 < length lv then lv ! (2 * j + 1) else lv ! (2 * j))"

text \<open>
  \<open>walk s r a t\<close>: in store \<open>s\<close>, the steps that \<^verbatim>\<open>generate_audit_trail\<close> records from node
  \<open>a\<close> up to the root \<open>r\<close> are \<open>t\<close> (the terminal pair is not part of \<open>t\<close>).
\<close>

inductive walk :: "state \<Rightarrow> addr \<Rightarrow> addr \<Rightarrow> trail \<Rightarrow> bool" for s :: state and r :: addr where
  at_root: "walk s r r []"
| from_left: "a \<noteq> r \<Longrightarrow> parent (nodes s a) = Some p \<Longrightarrow> left_child (nodes s p) = Some a \<Longrightarrow>
     right_child (nodes s p) = Some rc \<Longrightarrow> walk s r p t \<Longrightarrow>
     walk s r a ((hash_value (nodes s rc), Some right) # t)"
| from_right: "a \<noteq> r \<Longrightarrow> parent (nodes s a) = Some p \<Longrightarrow> left_child (nodes s p) = Some lc \<Longrightarrow>
     lc \<noteq> a \<Longrightarrow> walk s r p t \<Longrightarrow>
     walk s r a ((hash_value (nodes s lc), Some left) # t)"

text \<open>
  The Merkle path as a function of the list of hashes of a level. \<open>level_up\<close> is the list of
  hashes of the next level; \<open>sibling_step hs i\<close> is the pair recorded for position \<open>i\<close> of
  a level with hashes \<open>hs\<close>; \<open>trail_of n H hs i\<close> collects these pairs level by level
  and \<open>root_of n H hs\<close> is the hash at the top (\<open>n\<close> bounds the number of levels;
  \<open>length hs\<close> is enough).
\<close>

fun level_up :: "(string \<Rightarrow> string) \<Rightarrow> string list \<Rightarrow> string list" where
  "level_up H [] = []"
| "level_up H [x] = [H (x @ x)]"
| "level_up H (x # y # r) = H (x @ y) # level_up H r"

definition sibling_step :: "string list \<Rightarrow> nat \<Rightarrow> string \<times> Branch option" where
  "sibling_step hs i =
     (if even i then (if i + 1 < length hs then hs ! (i + 1) else hs ! i, Some right)
      else (hs ! (i - 1), Some left))"

fun trail_of :: "nat \<Rightarrow> (string \<Rightarrow> string) \<Rightarrow> string list \<Rightarrow> nat \<Rightarrow> trail" where
  "trail_of 0 H hs i = []"
| "trail_of (Suc n) H hs i =
     (if length hs \<le> 1 then []
      else sibling_step hs i # trail_of n H (level_up H hs) (i div 2))"

fun root_of :: "nat \<Rightarrow> (string \<Rightarrow> string) \<Rightarrow> string list \<Rightarrow> string" where
  "root_of 0 H hs = hd hs"
| "root_of (Suc n) H hs = (if length hs \<le> 1 then hd hs else root_of n H (level_up H hs))"

definition hashes :: "state \<Rightarrow> addr list \<Rightarrow> string list" where
  "hashes s lv = map (\<lambda>a. hash_value (nodes s a)) lv"

text \<open>
  Two node values that differ at most in \<open>parent\<close>, and what \<^verbatim>\<open>build_parents\<close> achieves on
  a level \<open>lv\<close>: from store \<open>s\<close> it returns the root \<open>r\<close> and the store \<open>s'\<close>.
\<close>

definition same_content :: "Node \<Rightarrow> Node \<Rightarrow> bool" where
  "same_content n m \<longleftrightarrow> hash_value n = hash_value m \<and> data_value n = data_value m \<and>
     left_child n = left_child m \<and> right_child n = right_child m"

definition built :: "(string \<Rightarrow> string) \<Rightarrow> addr list \<Rightarrow> state \<Rightarrow> addr \<Rightarrow> state \<Rightarrow> bool" where
  "built H lv s r s' \<longleftrightarrow>
     lists s' = lists s \<and> next_node s \<le> next_node s' \<and> r < next_node s' \<and>
     (r \<in> set lv \<or> next_node s \<le> r) \<and>
     (\<forall>a. a < next_node s \<longrightarrow> a \<notin> set lv \<longrightarrow> nodes s' a = nodes s a) \<and>
     (\<forall>a\<in>set lv. same_content (nodes s' a) (nodes s a)) \<and>
     (\<forall>i<length lv. walk s' r (lv ! i) (trail_of (length lv) H (hashes s lv) i)) \<and>
     hash_value (nodes s' r) = root_of (length lv) H (hashes s lv)"

text \<open>
  The levels of a construction: \<open>level H C s lv \<sigma>\<close> holds when, in the run of
  \<^verbatim>\<open>build_tree\<close> on the chunks \<open>C\<close> from store \<open>s\<close>, \<^verbatim>\<open>build_parents\<close> is called with the list
  \<open>lv\<close> in store \<open>\<sigma>\<close>. The first call is on the leaves (line 46); a call on a list whose
  length is not 1 runs the loop and calls \<^verbatim>\<open>build_parents\<close> on the parents (line 74).
\<close>

inductive level :: "(string \<Rightarrow> string) \<Rightarrow> string list \<Rightarrow> state \<Rightarrow> addr list \<Rightarrow> state \<Rightarrow> bool"
  for H :: "string \<Rightarrow> string" and C :: "string list" and s :: state where
  leaf_level: "build_leaves H C s = (lv, \<sigma>) \<Longrightarrow> level H C s lv \<sigma>"
| next_level: "level H C s lv \<sigma> \<Longrightarrow> length lv \<noteq> 1 \<Longrightarrow>
     build_parents_loop H lv 0 [] \<sigma> = (ps, \<sigma>') \<Longrightarrow> level H C s ps \<sigma>'"

section \<open>The construction: one level, then all levels\<close>

lemma link_next [simp]: "next_node (link H l r s) = Suc (next_node s)"
  by (simp add: link_def new_Node_def Let_def)

lemma link_lists [simp]: "lists (link H l r s) = lists s"
  by (simp add: link_def new_Node_def Let_def)

lemma link_new:
  "l < next_node s \<Longrightarrow> r < next_node s \<Longrightarrow>
   nodes (link H l r s) (next_node s) =
     \<lparr>hash_value = H (hash_value (nodes s l) @ hash_value (nodes s r)),
      data_value = None, parent = None, left_child = Some l, right_child = Some r\<rparr>"
  by (simp add: link_def new_Node_def Let_def)

lemma link_child:
  "l < next_node s \<Longrightarrow> r < next_node s \<Longrightarrow> a = l \<or> a = r \<Longrightarrow>
   nodes (link H l r s) a = (nodes s a)\<lparr>parent := Some (next_node s)\<rparr>"
  by (auto simp add: link_def new_Node_def Let_def)

lemma link_other:
  "a \<noteq> l \<Longrightarrow> a \<noteq> r \<Longrightarrow> a \<noteq> next_node s \<Longrightarrow> nodes (link H l r s) a = nodes s a"
  by (simp add: link_def new_Node_def Let_def)

lemma loop_unfold:
  "build_parents_loop H lvs i acc s =
     (if i < length lvs
      then build_parents_loop H lvs (i + 2) (acc @ [next_node s])
             (link H (lvs ! i) (if i + 1 < length lvs then lvs ! (i + 1) else lvs ! i) s)
      else (acc, s))"
  by (subst build_parents_loop.simps) (simp add: link_def new_Node_def Let_def)

lemma loop_pair_up:
  "build_parents_loop H lvs i acc s =
     (case pair_up H (drop i lvs) s of (ps, s') \<Rightarrow> (acc @ ps, s'))"
proof (induction "length lvs - i" arbitrary: i acc s rule: less_induct)
  case less
  show ?case
  proof (cases "i < length lvs")
    case False
    then show ?thesis by (subst loop_unfold) simp
  next
    case True
    note lt = this
    define r where "r = (if i + 1 < length lvs then lvs ! (i + 1) else lvs ! i)"
    define s1 where "s1 = link H (lvs ! i) r s"
    have step: "build_parents_loop H lvs i acc s =
        build_parents_loop H lvs (i + 2) (acc @ [next_node s]) s1"
      using lt unfolding s1_def r_def by (subst loop_unfold) simp
    have "length lvs - (i + 2) < length lvs - i" using lt by simp
    from less.hyps[OF this]
    have ih: "build_parents_loop H lvs (i + 2) (acc @ [next_node s]) s1 =
        (case pair_up H (drop (i + 2) lvs) s1 of (ps, s'') \<Rightarrow> ((acc @ [next_node s]) @ ps, s''))" .
    show ?thesis
    proof (cases "i + 1 < length lvs")
      case True
      then have "Suc i < length lvs" by simp
      then have "drop (Suc i) lvs = lvs ! Suc i # drop (Suc (Suc i)) lvs"
        by (rule Cons_nth_drop_Suc[symmetric])
      moreover have "drop i lvs = lvs ! i # drop (Suc i) lvs"
        using lt by (rule Cons_nth_drop_Suc[symmetric])
      ultimately have d: "drop i lvs = lvs ! i # lvs ! (i + 1) # drop (i + 2) lvs"
        by (simp only: Suc_eq_plus1 add_2_eq_Suc')
      have r: "r = lvs ! (i + 1)" using True by (simp add: r_def)
      show ?thesis unfolding step ih d by (simp add: s1_def r split: prod.splits)
    next
      case False
      then have "drop (Suc i) lvs = []" by simp
      moreover have "drop i lvs = lvs ! i # drop (Suc i) lvs"
        using lt by (rule Cons_nth_drop_Suc[symmetric])
      ultimately have d: "drop i lvs = [lvs ! i]" by (simp only:)
      have d2: "drop (i + 2) lvs = []" using False by simp
      have r: "r = lvs ! i" using False by (simp add: r_def)
      show ?thesis unfolding step ih d d2 by (simp add: s1_def r)
    qed
  qed
qed

lemma pair_up_shape:
  "pair_up H lv s = (ps, s') \<Longrightarrow>
   next_node s' = next_node s + length ps \<and> length ps = (length lv + 1) div 2 \<and>
   lists s' = lists s \<and> (\<forall>j<length ps. ps ! j = next_node s + j)"
proof (induction H lv s arbitrary: ps s' rule: pair_up.induct)
  case (1 H s)
  then show ?case by simp
next
  case (2 H a s)
  then show ?case by auto
next
  case (3 H a b rest s)
  obtain ps0 s0 where p0: "pair_up H rest (link H a b s) = (ps0, s0)"
    by (cases "pair_up H rest (link H a b s)")
  with 3(2) have ps: "ps = next_node s # ps0" and s': "s' = s0" by simp_all
  from 3(1)[OF p0] have ih: "next_node s0 = Suc (next_node s) + length ps0"
    "length ps0 = (length rest + 1) div 2" "lists s0 = lists s"
    "\<forall>j<length ps0. ps0 ! j = Suc (next_node s) + j" by simp_all
  have "\<forall>j<length ps. ps ! j = next_node s + j"
    using ih(4) unfolding ps by (auto simp: nth_Cons split: nat.splits)
  then show ?case using ih(1,2,3) ps s' by simp
qed

lemma pair_up_fresh:
  assumes "pair_up H lv s = (ps, s')" "p \<in> set ps"
  shows "next_node s \<le> p \<and> p < next_node s'"
proof -
  from assms(2) obtain j where "j < length ps" "ps ! j = p" by (auto simp: in_set_conv_nth)
  with pair_up_shape[OF assms(1)] show ?thesis by auto
qed

lemma pair_up_distinct:
  assumes "pair_up H lv s = (ps, s')"
  shows "distinct ps"
  using pair_up_shape[OF assms] by (auto simp: distinct_conv_nth)

lemma pair_up_frame:
  "pair_up H lv s = (ps, s') \<Longrightarrow> \<forall>x\<in>set lv. x < next_node s \<Longrightarrow>
   a < next_node s \<Longrightarrow> a \<notin> set lv \<Longrightarrow> nodes s' a = nodes s a"
proof (induction H lv s arbitrary: ps s' rule: pair_up.induct)
  case (1 H s)
  then show ?case by simp
next
  case (2 H x s)
  then show ?case by (auto simp: link_other)
next
  case (3 H x y rest s)
  obtain ps0 s0 where p0: "pair_up H rest (link H x y s) = (ps0, s0)"
    by (cases "pair_up H rest (link H x y s)")
  with 3(2) have s': "s' = s0" by simp
  have "nodes s0 a = nodes (link H x y s) a"
    using 3(3,4,5) by (intro 3(1)[OF p0]) auto
  also have "\<dots> = nodes s a" using 3(4,5) by (auto simp: link_other)
  finally show ?case using s' by simp
qed

lemma pair_up_child:
  "pair_up H lv s = (ps, s') \<Longrightarrow> distinct lv \<Longrightarrow> \<forall>x\<in>set lv. x < next_node s \<Longrightarrow>
   i < length lv \<Longrightarrow> nodes s' (lv ! i) = (nodes s (lv ! i))\<lparr>parent := Some (ps ! (i div 2))\<rparr>"
proof (induction H lv s arbitrary: ps s' i rule: pair_up.induct)
  case (1 H s)
  then show ?case by simp
next
  case (2 H a s)
  then show ?case by (auto simp: link_child)
next
  case (3 H x y rest s)
  let ?s1 = "link H x y s"
  obtain ps0 s0 where p0: "pair_up H rest ?s1 = (ps0, s0)"
    by (cases "pair_up H rest ?s1")
  with 3(2) have ps: "ps = next_node s # ps0" and s': "s' = s0" by simp_all
  have lt: "x < next_node s" "y < next_node s" "\<forall>r\<in>set rest. r < next_node s"
    using 3(4) by auto
  have bnd: "\<forall>r\<in>set rest. r < next_node ?s1" using lt by auto
  have dist: "x \<notin> set rest" "y \<notin> set rest" "distinct rest" "x \<noteq> y" using 3(3) by auto
  consider "i = 0" | "i = 1" | "2 \<le> i" by linarith
  then show ?case
  proof cases
    case 1
    have "nodes s0 x = nodes ?s1 x"
      using lt dist by (intro pair_up_frame[OF p0 bnd]) auto
    then show ?thesis using 1 ps s' lt by (simp add: link_child)
  next
    case 2
    have "nodes s0 y = nodes ?s1 y"
      using lt dist by (intro pair_up_frame[OF p0 bnd]) auto
    then show ?thesis using 2 ps s' lt by (simp add: link_child)
  next
    case 3
    then obtain k where k: "i = Suc (Suc k)" by (metis Suc_leD add_2_eq_Suc' le_Suc_ex numeral_2_eq_2 plus_1_eq_Suc add.commute)
    with "3.prems"(4) have kl: "k < length rest" by simp
    have r: "rest ! k \<in> set rest" using kl by simp
    have "nodes s0 (rest ! k) = (nodes ?s1 (rest ! k))\<lparr>parent := Some (ps0 ! (k div 2))\<rparr>"
      by (rule "3.IH"[OF p0 dist(3) bnd kl])
    moreover have "nodes ?s1 (rest ! k) = nodes s (rest ! k)"
      using r lt dist by (intro link_other) auto
    ultimately show ?thesis using k ps s' by simp
  qed
qed

lemma pair_up_parent:
  "pair_up H lv s = (ps, s') \<Longrightarrow> distinct lv \<Longrightarrow> \<forall>x\<in>set lv. x < next_node s \<Longrightarrow>
   j < length ps \<Longrightarrow>
   nodes s' (ps ! j) =
     \<lparr>hash_value = H (hash_value (nodes s (lv ! (2 * j))) @ hash_value (nodes s (right_of lv j))),
      data_value = None, parent = None,
      left_child = Some (lv ! (2 * j)), right_child = Some (right_of lv j)\<rparr>"
proof (induction H lv s arbitrary: ps s' j rule: pair_up.induct)
  case (1 H s)
  then show ?case by simp
next
  case (2 H a s)
  then show ?case by (auto simp: link_new right_of_def)
next
  case (3 H x y rest s)
  let ?s1 = "link H x y s"
  obtain ps0 s0 where p0: "pair_up H rest ?s1 = (ps0, s0)"
    by (cases "pair_up H rest ?s1")
  with 3(2) have ps: "ps = next_node s # ps0" and s': "s' = s0" by simp_all
  have lt: "x < next_node s" "y < next_node s" "\<forall>r\<in>set rest. r < next_node s"
    using 3(4) by auto
  have bnd: "\<forall>r\<in>set rest. r < next_node ?s1" using lt by auto
  have dist: "x \<notin> set rest" "y \<notin> set rest" "distinct rest" "x \<noteq> y" using 3(3) by auto
  have same: "nodes ?s1 r = nodes s r" if "r \<in> set rest" for r
    using that lt dist by (intro link_other) auto
  show ?case
  proof (cases j)
    case 0
    have "next_node s \<notin> set rest" using lt by auto
    then have "nodes s0 (next_node s) = nodes ?s1 (next_node s)"
      by (intro pair_up_frame[OF p0 bnd]) auto
    then show ?thesis using 0 ps s' lt by (simp add: link_new right_of_def)
  next
    case (Suc k)
    with "3.prems"(4) ps have kl: "k < length ps0" by simp
    from pair_up_shape[OF p0] have len: "length ps0 = (length rest + 1) div 2" by simp
    with kl have k2: "2 * k < length rest" by linarith
    have ro: "right_of (x # y # rest) (Suc k) = right_of rest k"
      by (simp add: right_of_def)
    have rin: "right_of rest k \<in> set rest" "rest ! (2 * k) \<in> set rest"
      using k2 by (auto simp: right_of_def)
    have "nodes s0 (ps0 ! k) =
       \<lparr>hash_value = H (hash_value (nodes ?s1 (rest ! (2 * k))) @ hash_value (nodes ?s1 (right_of rest k))),
        data_value = None, parent = None,
        left_child = Some (rest ! (2 * k)), right_child = Some (right_of rest k)\<rparr>"
      by (rule "3.IH"[OF p0 dist(3) bnd kl])
    then show ?thesis using Suc ps s' ro same[OF rin(1)] same[OF rin(2)] by simp
  qed
qed

lemma walk_generate:
  "walk s r a t \<Longrightarrow> nodes \<sigma> = nodes s \<Longrightarrow> root_node self = r \<Longrightarrow>
   generate_audit_trail self a tr \<sigma> =
     Some (Inr (tr, \<sigma>\<lparr>lists := (lists \<sigma>)(tr := lists \<sigma> tr @ t @ [(hash_value (nodes s r), None)])\<rparr>))"
proof (induction arbitrary: \<sigma> rule: walk.induct)
  case at_root
  then show ?case
    by (subst generate_audit_trail.simps) (simp add: list_append_def)
next
  case (from_left a p rc t)
  let ?\<sigma>' = "list_append tr (hash_value (nodes s rc), Some right) \<sigma>"
  have n: "nodes ?\<sigma>' = nodes s" using from_left.prems by (simp add: list_append_def)
  have step: "generate_audit_trail self a tr \<sigma> = generate_audit_trail self p tr ?\<sigma>'"
    using from_left.hyps from_left.prems
    by (subst generate_audit_trail.simps) simp
  show ?case unfolding step from_left.IH[OF n from_left.prems(2)]
    by (simp add: list_append_def fun_upd_def cong: if_cong)
next
  case (from_right a p lc t)
  let ?\<sigma>' = "list_append tr (hash_value (nodes s lc), Some left) \<sigma>"
  have n: "nodes ?\<sigma>' = nodes s" using from_right.prems by (simp add: list_append_def)
  have step: "generate_audit_trail self a tr \<sigma> = generate_audit_trail self p tr ?\<sigma>'"
    using from_right.hyps from_right.prems
    by (subst generate_audit_trail.simps) simp
  show ?case unfolding step from_right.IH[OF n from_right.prems(2)]
    by (simp add: list_append_def fun_upd_def cong: if_cong)
qed

lemma same_content_refl [simp]: "same_content n n"
  by (simp add: same_content_def)

lemma same_content_parent [simp]: "same_content (n\<lparr>parent := p\<rparr>) n"
  by (simp add: same_content_def)

lemma same_content_trans: "same_content a b \<Longrightarrow> same_content b c \<Longrightarrow> same_content a c"
  by (simp add: same_content_def)

lemma build_parents_single: "build_parents H [a] s = Some (a, s)"
  by (subst build_parents.simps) simp

lemma build_parents_step:
  "length lv \<noteq> 1 \<Longrightarrow> pair_up H lv s = (ps, s1) \<Longrightarrow> build_parents H lv s = build_parents H ps s1"
  by (subst build_parents.simps) (simp add: loop_pair_up)

lemma right_of_in: "2 * j < length lv \<Longrightarrow> right_of lv j \<in> set lv"
  by (simp add: right_of_def)

lemma upt_head: "[n ..< n + Suc k] = n # [Suc n ..< Suc n + k]"
  using upt_conv_Cons[of n "n + Suc k"] by (simp del: upt_Suc)

lemma build_leaves_loop_spec:
  "build_leaves_loop H cs acc s = (lvs, s') \<Longrightarrow>
   lvs = acc @ [next_node s ..< next_node s + length cs] \<and>
   next_node s' = next_node s + length cs \<and> lists s' = lists s \<and>
   (\<forall>a<next_node s. nodes s' a = nodes s a) \<and>
   (\<forall>i<length cs. nodes s' (next_node s + i) =
      \<lparr>hash_value = H (cs ! i), data_value = Some (cs ! i), parent = None,
       left_child = None, right_child = None\<rparr>)"
proof (induction cs arbitrary: acc s)
  case Nil
  then show ?case by simp
next
  case (Cons c cs)
  let ?n = "next_node s"
  let ?s1 = "snd (new_Node (H c) (Some c) s)"
  have n1: "next_node ?s1 = Suc ?n" "lists ?s1 = lists s"
    "nodes ?s1 ?n = \<lparr>hash_value = H c, data_value = Some c, parent = None,
       left_child = None, right_child = None\<rparr>"
    "\<And>a. a \<noteq> ?n \<Longrightarrow> nodes ?s1 a = nodes s a"
    by (simp_all add: new_Node_def)
  from Cons.prems have run: "build_leaves_loop H cs (acc @ [?n]) ?s1 = (lvs, s')"
    by (simp add: new_Node_def)
  note ih = Cons.IH[OF run, unfolded n1(1,2)]
  have l: "lvs = acc @ [?n ..< ?n + length (c # cs)]"
    using ih upt_head[of ?n "length cs"] by simp
  have old: "\<forall>a<?n. nodes s' a = nodes s a" using ih n1(4) by auto
  have new: "nodes s' (?n + i) = \<lparr>hash_value = H ((c # cs) ! i), data_value = Some ((c # cs) ! i),
       parent = None, left_child = None, right_child = None\<rparr>" if "i < length (c # cs)" for i
  proof (cases i)
    case 0
    then show ?thesis using ih n1(3) by simp
  next
    case (Suc k)
    then show ?thesis using ih that by simp
  qed
  show ?case using l ih old new by simp
qed


lemma length_level_up [simp]: "length (level_up H hs) = (length hs + 1) div 2"
  by (induction H hs rule: level_up.induct) auto

lemma level_up_nth:
  "j < length (level_up H hs) \<Longrightarrow>
   level_up H hs ! j = H (hs ! (2 * j) @ (if 2 * j + 1 < length hs then hs ! (2 * j + 1) else hs ! (2 * j)))"
proof (induction H hs arbitrary: j rule: level_up.induct)
  case (1 H)
  then show ?case by simp
next
  case (2 H x)
  then show ?case by simp
next
  case (3 H x y r)
  show ?case
  proof (cases j)
    case 0
    then show ?thesis by simp
  next
    case (Suc k)
    with 3(2) have "k < length (level_up H r)" by simp
    from 3(1)[OF this] show ?thesis using Suc by simp
  qed
qed

lemma trail_of_fuel: "length hs \<le> n \<Longrightarrow> trail_of n H hs i = trail_of (length hs) H hs i"
proof (induction n arbitrary: hs i rule: less_induct)
  case (less n)
  show ?case
  proof (cases "length hs \<le> 1")
    case True
    then show ?thesis by (cases n; cases "length hs") auto
  next
    case False
    then obtain m where m: "length hs = Suc m" by (cases "length hs") auto
    from less.prems False obtain n' where n': "n = Suc n'" by (cases n) auto
    have l: "length (level_up H hs) \<le> m" "length (level_up H hs) \<le> n'" "m < n" "n' < n"
      using m n' less.prems False by auto
    have "trail_of n' H (level_up H hs) (i div 2) = trail_of m H (level_up H hs) (i div 2)"
      using less.IH[OF l(4) l(2)] less.IH[OF l(3) l(1)] by simp
    then show ?thesis using False m n' by simp
  qed
qed

lemma root_of_fuel: "length hs \<le> n \<Longrightarrow> root_of n H hs = root_of (length hs) H hs"
proof (induction n arbitrary: hs rule: less_induct)
  case (less n)
  show ?case
  proof (cases "length hs \<le> 1")
    case True
    then show ?thesis by (cases n; cases "length hs") auto
  next
    case False
    then obtain m where m: "length hs = Suc m" by (cases "length hs") auto
    from less.prems False obtain n' where n': "n = Suc n'" by (cases n) auto
    have l: "length (level_up H hs) \<le> m" "length (level_up H hs) \<le> n'" "m < n" "n' < n"
      using m n' less.prems False by auto
    have "root_of n' H (level_up H hs) = root_of m H (level_up H hs)"
      using less.IH[OF l(4) l(2)] less.IH[OF l(3) l(1)] by simp
    then show ?thesis using False m n' by simp
  qed
qed



lemma hashes_simps [simp]:
  "length (hashes s lv) = length lv"
  "i < length lv \<Longrightarrow> hashes s lv ! i = hash_value (nodes s (lv ! i))"
  by (simp_all add: hashes_def)

lemma build_parents_correct:
  "lv \<noteq> [] \<Longrightarrow> distinct lv \<Longrightarrow> \<forall>x\<in>set lv. x < next_node s \<Longrightarrow>
   \<exists>r s'. build_parents H lv s = Some (r, s') \<and> built H lv s r s'"
proof (induction "length lv" arbitrary: lv s rule: less_induct)
  case less
  show ?case
  proof (cases "length lv = 1")
    case True
    then obtain a where lv: "lv = [a]" by (cases lv) auto
    have "walk s a a []" by (rule walk.at_root)
    then have "built H [a] s a s" using less.prems by (simp add: built_def lv hashes_def)
    then show ?thesis unfolding lv build_parents_single by blast
  next
    case False
    obtain ps s1 where pu: "pair_up H lv s = (ps, s1)" by (cases "pair_up H lv s")
    note sh = pair_up_shape[OF pu]
    have "length lv \<noteq> 0" using less.prems(1) by simp
    with False have len2: "2 \<le> length lv" by linarith
    then obtain m where m: "length lv = Suc m" by (cases "length lv") auto
    have lps: "length ps = (length lv + 1) div 2" using sh by simp
    have psne: "ps \<noteq> []" and pslt: "length ps < length lv" using lps len2 by auto
    have psm: "length ps \<le> m" using pslt m by simp
    have nx1: "next_node s \<le> next_node s1" using sh by simp
    have fresh: "next_node s \<le> p \<and> p < next_node s1" if "p \<in> set ps" for p
      using pair_up_fresh[OF pu that] .
    have psb: "\<forall>p\<in>set ps. p < next_node s1" using fresh by blast
    from less.hyps[OF pslt psne pair_up_distinct[OF pu] psb]
    obtain r s2 where bp: "build_parents H ps s1 = Some (r, s2)" and b: "built H ps s1 r s2"
      by blast
    have b1: "lists s2 = lists s1" and b2: "next_node s1 \<le> next_node s2"
      and b3: "r < next_node s2" and b4: "r \<in> set ps \<or> next_node s1 \<le> r"
      and b5: "\<And>a. a < next_node s1 \<Longrightarrow> a \<notin> set ps \<Longrightarrow> nodes s2 a = nodes s1 a"
      and b6: "\<And>p. p \<in> set ps \<Longrightarrow> same_content (nodes s2 p) (nodes s1 p)"
      and b7: "\<And>j. j < length ps \<Longrightarrow> walk s2 r (ps ! j) (trail_of (length ps) H (hashes s1 ps) j)"
      and b8: "hash_value (nodes s2 r) = root_of (length ps) H (hashes s1 ps)"
      using b unfolding built_def by blast+
    have rge: "next_node s \<le> r" using b4 fresh nx1 by auto
    have low: "a < next_node s" "a \<notin> set ps" if "a \<in> set lv" for a
      using that less.prems(3) fresh by fastforce+
    have keep: "nodes s2 a = nodes s1 a" if "a \<in> set lv" for a
      using low[OF that] nx1 by (intro b5) auto
    have child: "nodes s1 (lv ! i) = (nodes s (lv ! i))\<lparr>parent := Some (ps ! (i div 2))\<rparr>"
      if "i < length lv" for i
      using pair_up_child[OF pu less.prems(2,3) that] .
    have cont: "same_content (nodes s2 a) (nodes s a)" if "a \<in> set lv" for a
    proof -
      from that obtain i where "i < length lv" "lv ! i = a" by (auto simp: in_set_conv_nth)
      with child[of i] keep[OF that] show ?thesis by simp
    qed
    have hsame: "hash_value (nodes s2 a) = hash_value (nodes s a)" if "a \<in> set lv" for a
      using cont[OF that] by (simp add: same_content_def)
    have par: "nodes s1 (ps ! j) =
         \<lparr>hash_value = H (hash_value (nodes s (lv ! (2 * j))) @ hash_value (nodes s (right_of lv j))),
          data_value = None, parent = None,
          left_child = Some (lv ! (2 * j)), right_child = Some (right_of lv j)\<rparr>"
      if "j < length ps" for j
      by (rule pair_up_parent[OF pu less.prems(2,3) that])
    have up: "hashes s1 ps = level_up H (hashes s lv)"
    proof (rule nth_equalityI)
      show "length (hashes s1 ps) = length (level_up H (hashes s lv))" using lps by simp
    next
      fix j assume "j < length (hashes s1 ps)"
      then have jl: "j < length ps" by simp
      then have j2: "2 * j < length lv" using lps by linarith
      have jl': "j < length (level_up H (hashes s lv))" using jl lps by simp
      show "hashes s1 ps ! j = level_up H (hashes s lv) ! j"
        using par[OF jl] jl j2 unfolding level_up_nth[OF jl'] by (simp add: right_of_def)
    qed
    have tr: "trail_of (length lv) H (hashes s lv) i =
        sibling_step (hashes s lv) i # trail_of (length ps) H (hashes s1 ps) (i div 2)" for i
    proof -
      have "trail_of m H (hashes s1 ps) (i div 2) = trail_of (length ps) H (hashes s1 ps) (i div 2)"
        using trail_of_fuel[of "hashes s1 ps" m H "i div 2"] psm by simp
      then show ?thesis using m len2 up by simp
    qed
    have rt: "root_of (length lv) H (hashes s lv) = root_of (length ps) H (hashes s1 ps)"
    proof -
      have "root_of m H (hashes s1 ps) = root_of (length ps) H (hashes s1 ps)"
        using root_of_fuel[of "hashes s1 ps" m H] psm by simp
      then show ?thesis using m len2 up by simp
    qed
    have walks: "walk s2 r (lv ! i) (trail_of (length lv) H (hashes s lv) i)"
      if i: "i < length lv" for i
    proof -
      define a where "a = lv ! i"
      have ain: "a \<in> set lv" using i by (simp add: a_def)
      define j where "j = i div 2"
      have jl: "j < length ps" using i lps unfolding j_def by linarith
      have j2: "2 * j < length lv" using i unfolding j_def by linarith
      define p where "p = ps ! j"
      have pin: "p \<in> set ps" using jl by (simp add: p_def)
      have lc: "left_child (nodes s2 p) = Some (lv ! (2 * j))"
        and rc: "right_child (nodes s2 p) = Some (right_of lv j)"
        using b6[OF pin] par[OF jl] by (simp_all add: same_content_def p_def)
      have pa: "parent (nodes s2 a) = Some p"
        using keep[OF ain] child[OF i] by (simp add: p_def j_def a_def)
      have ar: "a \<noteq> r" using low(1)[OF ain] rge by simp
      have t: "walk s2 r p (trail_of (length ps) H (hashes s1 ps) j)"
        unfolding p_def by (rule b7[OF jl])
      have rin: "right_of lv j \<in> set lv" using j2 by (rule right_of_in)
      have lin: "lv ! (2 * j) \<in> set lv" using j2 by simp
      show ?thesis
      proof (cases "even i")
        case True
        then have ij: "2 * j = i" unfolding j_def by presburger
        then have la: "lv ! (2 * j) = a" by (simp add: a_def)
        have st: "sibling_step (hashes s lv) i = (hash_value (nodes s2 (right_of lv j)), Some right)"
          using True i ij hsame[OF rin] by (auto simp: sibling_step_def right_of_def)
        have "walk s2 r a ((hash_value (nodes s2 (right_of lv j)), Some right) #
                trail_of (length ps) H (hashes s1 ps) j)"
          using ar pa lc rc t unfolding la by (rule walk.from_left)
        then show ?thesis unfolding tr st a_def j_def .
      next
        case False
        then have ij: "i = 2 * j + 1" unfolding j_def by presburger
        have ne: "lv ! (2 * j) \<noteq> a"
          using less.prems(2) i ij j2 by (auto simp: nth_eq_iff_index_eq a_def)
        have st: "sibling_step (hashes s lv) i = (hash_value (nodes s2 (lv ! (2 * j))), Some left)"
          using False i ij j2 hsame[OF lin] by (simp add: sibling_step_def)
        have "walk s2 r a ((hash_value (nodes s2 (lv ! (2 * j))), Some left) #
                trail_of (length ps) H (hashes s1 ps) j)"
          using ar pa lc ne t by (rule walk.from_right)
        then show ?thesis unfolding tr st a_def j_def .
      qed
    qed
    have frame: "nodes s2 a = nodes s a" if "a < next_node s" "a \<notin> set lv" for a
    proof -
      have "a \<notin> set ps" using that(1) fresh by fastforce
      then have "nodes s2 a = nodes s1 a" using that(1) nx1 by (intro b5) auto
      also have "\<dots> = nodes s a" using that by (intro pair_up_frame[OF pu less.prems(3)])
      finally show ?thesis .
    qed
    have "built H lv s r s2"
      unfolding built_def using b1 sh b2 nx1 b3 rge frame cont walks b8 rt by auto
    moreover have "build_parents H lv s = Some (r, s2)"
      using build_parents_step[OF False pu] bp by simp
    ultimately show ?thesis by blast
  qed
qed

section \<open>The verifier\<close>

lemma merkle_proof_loop_foldl:
  "merkle_proof_loop H cur t =
     foldl (\<lambda>cur item. case snd item of
              Some left \<Rightarrow> H (fst item @ cur)
            | Some right \<Rightarrow> H (cur @ fst item)
            | None \<Rightarrow> H (cur @ fst item)) cur t"
  by (induction t arbitrary: cur) (auto split: option.splits Branch.splits)

lemma merkle_proof_loop_append:
  "merkle_proof_loop H cur (t @ u) = merkle_proof_loop H (merkle_proof_loop H cur t) u"
  by (induction t arbitrary: cur) auto

text \<open>
  Claim C8. \<^verbatim>\<open>merkle_proof\<close> starts from the leaf hash and folds over the trail without its
  last element, in order: an item marked \<open>left\<close> turns the current hash \<open>cur\<close> into
  \<open>H (sibling @ cur)\<close>, an item marked \<open>right\<close> into \<open>H (cur @ sibling)\<close> (as does an
  item marked \<open>None\<close>, which the \<^verbatim>\<open>else\<close> branch takes as well); the result is true iff
  the final hash equals the root hash. The function takes no store and returns none: it
  has no side effects and no access to the tree.
\<close>

theorem merkle_proof_is_fold:
  "merkle_proof H root_hash leaf_hash trail =
     (foldl (\<lambda>cur item. case snd item of
               Some left \<Rightarrow> H (fst item @ cur)
             | Some right \<Rightarrow> H (cur @ fst item)
             | None \<Rightarrow> H (cur @ fst item)) leaf_hash (butlast trail) = root_hash)"
  unfolding merkle_proof_def merkle_proof_loop_foldl ..

text \<open>
  Claim C5, as stated, fails: \<^verbatim>\<open>merkle_proof\<close> returns a boolean for a trail with no
  terminal element at all (the empty trail), and for a trail whose last element is a
  \<open>left\<close> step and whose first element carries the marker \<open>None\<close>.
\<close>

theorem merkle_proof_malformed_counterexample:
  "merkle_proof toy_hash ''r'' ''r'' [] = True \<and>
   merkle_proof toy_hash (toy_hash (''r'' @ ''s'')) ''r'' [(''s'', None), (''t'', Some left)] = True"
  by (simp add: merkle_proof_def toy_hash_def)

lemma merkle_proof_py_loop_foldl:
  "merkle_proof_py_loop H cur t =
     foldl (\<lambda>cur item. if snd item = Side left then H (fst item @ cur)
                       else H (cur @ fst item)) cur t"
  by (induction t arbitrary: cur) auto

lemma merkle_proof_loop_foldl_if:
  "merkle_proof_loop H cur t =
     foldl (\<lambda>cur item. if snd item = Some left then H (fst item @ cur)
                       else H (cur @ fst item)) cur t"
  by (induction t arbitrary: cur) auto

lemma merkle_proof_py_typed:
  "merkle_proof_py H r l
     (map (\<lambda>item. (fst item, case snd item of None \<Rightarrow> NoSide | Some b \<Rightarrow> Side b)) t) =
   merkle_proof H r l t"
proof -
  have "merkle_proof_py_loop H cur
          (map (\<lambda>item. (fst item, case snd item of None \<Rightarrow> NoSide | Some b \<Rightarrow> Side b)) u) =
        merkle_proof_loop H cur u" for cur u
    by (induction u arbitrary: cur) (auto split: option.splits)
  then show ?thesis
    by (simp add: merkle_proof_py_def merkle_proof_def map_butlast[symmetric])
qed

text \<open>
  Claim C5, amended. \<^verbatim>\<open>merkle_proof\<close> does not validate the shape of the trail and
  never fails with a malformed-trail error (the code defines none). Given a list of
  (hash, marker) pairs it computes a boolean from the list as it is: the empty list is
  verified with no step; otherwise the last element is dropped, whatever it is, and
  every element before it is combined in order, as \<open>H (sibling @ cur)\<close> when its marker
  is \<open>left\<close> and as \<open>H (cur @ sibling)\<close> for every other marker (\<open>right\<close>, \<^verbatim>\<open>None\<close> or an
  unrecognized value), at any position; the result is true iff the final hash equals
  the root hash. The first two equations are for trails with the markers the program
  itself produces, the last two for arbitrary markers.
\<close>

theorem merkle_proof_no_validation:
  "merkle_proof H r l [] = (l = r) \<and>
   merkle_proof H r l (t @ [x]) =
     (foldl (\<lambda>cur item. if snd item = Some left then H (fst item @ cur)
                        else H (cur @ fst item)) l t = r) \<and>
   merkle_proof_py H r l [] = (l = r) \<and>
   merkle_proof_py H r l (u @ [y]) =
     (foldl (\<lambda>cur item. if snd item = Side left then H (fst item @ cur)
                        else H (cur @ fst item)) l u = r)"
  by (simp add: merkle_proof_def merkle_proof_py_def merkle_proof_loop_foldl_if
      merkle_proof_py_loop_foldl)

section \<open>Building a tree, then querying it\<close>

lemma build_parents_nonempty:
  assumes "build_parents H lvs s = Some y"
  shows "lvs \<noteq> []"
proof (rule build_parents.raw_induct[where P = "\<lambda>H lvs s y. lvs \<noteq> []" and H = H and lvs = lvs
        and s = s and y = y])
  fix bp :: "(string \<Rightarrow> string) \<Rightarrow> addr list \<Rightarrow> state \<Rightarrow> (addr \<times> state) option"
    and H lvs s y
  assume ih: "\<And>H lvs s y. bp H lvs s = Some y \<Longrightarrow> lvs \<noteq> []"
    and eq: "(if length lvs = 1 then Some (lvs ! 0, s)
              else case build_parents_loop H lvs 0 [] s of
                (parents, s') \<Rightarrow> bp H parents s') = Some y"
  show "lvs \<noteq> []"
  proof
    assume e: "lvs = []"
    have "build_parents_loop H [] 0 [] s = ([], s)" by (subst loop_unfold) simp
    with eq e have "bp H [] s = Some y" by simp
    then have "[] \<noteq> ([]::addr list)" by (rule ih)
    then show False by simp
  qed
next
  show "build_parents H lvs s = Some y" by (rule assms)
qed

lemma build_parents_empty: "build_parents H [] s = None"
  using build_parents_nonempty[of H "[]" s] by (cases "build_parents H [] s") auto

lemma build_tree_spec:
  assumes "C \<noteq> []"
  shows "\<exists>T s'. build_tree H C s = Some (T, s') \<and>
     leaves T = [next_node s ..< next_node s + length C] \<and> lists s' = lists s \<and>
     next_node s + length C \<le> next_node s' \<and>
     (\<forall>a<next_node s. nodes s' a = nodes s a) \<and>
     (\<forall>i<length C. hash_value (nodes s' (next_node s + i)) = H (C ! i)) \<and>
     (\<forall>i<length C. walk s' (root_node T) (next_node s + i) (trail_of (length C) H (map H C) i)) \<and>
     hash_value (nodes s' (root_node T)) = root_of (length C) H (map H C)"
proof -
  let ?n = "next_node s"
  obtain lvs s1 where bl: "build_leaves_loop H C [] s = (lvs, s1)"
    by (cases "build_leaves_loop H C [] s")
  from build_leaves_loop_spec[OF bl]
  have lvs: "lvs = [?n ..< ?n + length C]" and n1: "next_node s1 = ?n + length C"
    and l1: "lists s1 = lists s" and old: "\<forall>a<?n. nodes s1 a = nodes s a"
    and new: "\<And>i. i < length C \<Longrightarrow> nodes s1 (?n + i) =
      \<lparr>hash_value = H (C ! i), data_value = Some (C ! i), parent = None,
       left_child = None, right_child = None\<rparr>"
    by simp_all
  have len: "length lvs = length C" and nth: "\<And>i. i < length C \<Longrightarrow> lvs ! i = ?n + i"
    by (simp_all add: lvs)
  have ne: "lvs \<noteq> []" using assms len by auto
  have d: "distinct lvs" by (simp add: lvs)
  have b: "\<forall>x\<in>set lvs. x < next_node s1" by (simp add: lvs n1)
  from build_parents_correct[OF ne d b, of H]
  obtain r s2 where bp: "build_parents H lvs s1 = Some (r, s2)" and bt: "built H lvs s1 r s2"
    by blast
  have hs: "hashes s1 lvs = map H C"
    by (rule nth_equalityI) (simp_all add: len nth new)
  have b1: "lists s2 = lists s1" and b2: "next_node s1 \<le> next_node s2"
    and b5: "\<And>a. a < next_node s1 \<Longrightarrow> a \<notin> set lvs \<Longrightarrow> nodes s2 a = nodes s1 a"
    and b6: "\<And>p. p \<in> set lvs \<Longrightarrow> same_content (nodes s2 p) (nodes s1 p)"
    and b7: "\<And>j. j < length lvs \<Longrightarrow> walk s2 r (lvs ! j) (trail_of (length lvs) H (hashes s1 lvs) j)"
    and b8: "hash_value (nodes s2 r) = root_of (length lvs) H (hashes s1 lvs)"
    using bt unfolding built_def by blast+
  have bt': "build_tree H C s = Some (\<lparr>root_node = r, leaves = lvs\<rparr>, s2)"
    by (simp add: build_tree_def build_leaves_def bl bp)
  have o: "nodes s2 a = nodes s a" if "a < ?n" for a
  proof -
    have "nodes s2 a = nodes s1 a" using that by (intro b5) (simp_all add: n1 lvs)
    then show ?thesis using old that by simp
  qed
  have h: "hash_value (nodes s2 (?n + i)) = H (C ! i)" if "i < length C" for i
  proof -
    have "?n + i \<in> set lvs" using that by (simp add: lvs)
    from b6[OF this] show ?thesis using new[OF that] by (simp add: same_content_def)
  qed
  have w: "walk s2 r (?n + i) (trail_of (length C) H (map H C) i)" if "i < length C" for i
    using b7[of i] that by (simp add: len nth hs)
  have r8: "hash_value (nodes s2 r) = root_of (length C) H (map H C)"
    using b8 unfolding hs len .
  show ?thesis
    unfolding bt' using lvs l1 b1 n1 b2 o h w r8 by simp
qed

lemma get_audit_trail_first:
  assumes lv: "leaves T = [n ..< n + length C]"
    and h: "\<forall>i<length C. hash_value (nodes s1 (n + i)) = H (C ! i)"
    and w: "\<forall>i<length C. walk s1 (root_node T) (n + i) (tr i)"
    and c: "c \<in> set C"
    and \<sigma>: "nodes \<sigma> = nodes s1"
  shows "\<exists>j<length C. H (C ! j) = H c \<and> (\<forall>k<j. H (C ! k) \<noteq> H c) \<and>
     get_audit_trail T (H c) \<sigma> =
       Some (Inr (Some trail_default,
         \<sigma>\<lparr>lists := (lists \<sigma>)(trail_default :=
              lists \<sigma> trail_default @ tr j @ [(hash_value (nodes s1 (root_node T)), None)])\<rparr>))"
proof -
  let ?P = "\<lambda>leaf. hash_value (nodes \<sigma> leaf) = H c"
  from c obtain i where i: "i < length C" "C ! i = c" by (auto simp: in_set_conv_nth)
  then have "?P (n + i)" "n + i \<in> set (leaves T)" using h by (simp_all add: lv \<sigma>)
  then have "find ?P (leaves T) \<noteq> None" by (auto simp: find_None_iff)
  then obtain a where f: "find ?P (leaves T) = Some a" by auto
  then obtain j where j: "j < length C" "?P (n + j)" "a = n + j" "\<forall>k<j. \<not> ?P (n + k)"
    unfolding find_Some_iff by (auto simp: lv)
  have 1: "H (C ! j) = H c" using j(1,2) h by (simp add: \<sigma>)
  have 2: "\<forall>k<j. H (C ! k) \<noteq> H c" using j(1,4) h by (simp add: \<sigma>)
  have "walk s1 (root_node T) a (tr j)" using w j(1,3) by simp
  from walk_generate[OF this \<sigma> refl, of trail_default]
  have "get_audit_trail T (H c) \<sigma> =
       Some (Inr (Some trail_default,
         \<sigma>\<lparr>lists := (lists \<sigma>)(trail_default :=
              lists \<sigma> trail_default @ tr j @ [(hash_value (nodes s1 (root_node T)), None)])\<rparr>))"
    by (simp add: get_audit_trail_def f)
  with j(1) 1 2 show ?thesis by blast
qed



lemma build_then_query:
  assumes "c \<in> set C"
  shows "\<exists>T s1 j. build_tree H C s = Some (T, s1) \<and> lists s1 = lists s \<and>
     hash_value (nodes s1 (root_node T)) = root_of (length C) H (map H C) \<and>
     j < length C \<and> H (C ! j) = H c \<and> (\<forall>k<j. H (C ! k) \<noteq> H c) \<and>
     (\<forall>\<sigma>. nodes \<sigma> = nodes s1 \<longrightarrow>
        get_audit_trail T (H c) \<sigma> =
          Some (Inr (Some trail_default,
            \<sigma>\<lparr>lists := (lists \<sigma>)(trail_default :=
               lists \<sigma> trail_default @ trail_of (length C) H (map H C) j @
                 [(root_of (length C) H (map H C), None)])\<rparr>)))"
proof -
  from assms(1) have "C \<noteq> []" by auto
  from build_tree_spec[OF this, of H s]
  obtain T s1 where bt: "build_tree H C s = Some (T, s1)"
    and lv: "leaves T = [next_node s ..< next_node s + length C]" and l: "lists s1 = lists s"
    and h: "\<forall>i<length C. hash_value (nodes s1 (next_node s + i)) = H (C ! i)"
    and w: "\<forall>i<length C. walk s1 (root_node T) (next_node s + i) (trail_of (length C) H (map H C) i)"
    and r: "hash_value (nodes s1 (root_node T)) = root_of (length C) H (map H C)"
    by blast
  from get_audit_trail_first[OF lv h w assms(1) refl]
  obtain j where j: "j < length C" "H (C ! j) = H c" "\<forall>k<j. H (C ! k) \<noteq> H c" by blast
  have g: "get_audit_trail T (H c) \<sigma> =
          Some (Inr (Some trail_default,
            \<sigma>\<lparr>lists := (lists \<sigma>)(trail_default :=
               lists \<sigma> trail_default @ trail_of (length C) H (map H C) j @
                 [(root_of (length C) H (map H C), None)])\<rparr>))"
    if \<sigma>: "nodes \<sigma> = nodes s1" for \<sigma>
  proof -
    from get_audit_trail_first[OF lv h w assms(1) \<sigma>]
    obtain j' where j': "j' < length C" "H (C ! j') = H c" "\<forall>k<j'. H (C ! k) \<noteq> H c"
      and g': "get_audit_trail T (H c) \<sigma> =
       Some (Inr (Some trail_default,
         \<sigma>\<lparr>lists := (lists \<sigma>)(trail_default :=
              lists \<sigma> trail_default @ trail_of (length C) H (map H C) j' @
                [(hash_value (nodes s1 (root_node T)), None)])\<rparr>))"
      by blast
    have "j' = j" using j j' by (meson linorder_neqE_nat)
    then show ?thesis using g' r by simp
  qed
  show ?thesis using bt l r j g by blast
qed








text \<open>
  Claim C4, as stated, fails: on the empty sequence \<^verbatim>\<open>build_leaves\<close> returns the empty
  list, the loop of \<^verbatim>\<open>build_parents\<close> returns the empty list of parents and the store
  unchanged, so \<^verbatim>\<open>build_parents\<close> calls itself with the arguments it was called with: the
  call does not return, and no error value is handed to the caller.
\<close>

theorem build_tree_empty_counterexample:
  "build_tree toy_hash [] init_state = None \<and>
   build_leaves toy_hash [] init_state = ([], init_state) \<and>
   build_parents_loop toy_hash [] 0 [] init_state = ([], init_state)"
  by (simp add: build_tree_def build_leaves_def build_parents_empty loop_unfold)

text \<open>
  Claim C4, amended. Called with the empty chunk sequence, \<^verbatim>\<open>build_tree\<close> does not return a
  tree, whatever the hash function and the store. (The code has no check for the empty
  sequence and defines no error of its own.)
\<close>

theorem build_tree_empty: "build_tree H [] s = None"
  by (simp add: build_tree_def build_leaves_def build_parents_empty)

section \<open>The trail of the third of three chunks, and a second query\<close>





text \<open>
  Claim C2 fails on the code. For the chunks \<open>a, b\<close>, the first query for the hash of \<open>a\<close>
  returns the default list with two elements; the second, identical query returns the
  same list object, now with four elements: the two of the first query, its terminal
  pair included, followed by the two of the second.
\<close>

theorem audit_trail_accumulates:
  "\<exists>T s1 t1 s2 t2 s3. build_tree toy_hash [''a'', ''b''] init_state = Some (T, s1) \<and>
     get_audit_trail T (toy_hash ''a'') s1 = Some (Inr (Some t1, s2)) \<and>
     lists s2 t1 =
       [(toy_hash ''b'', Some right), (toy_hash (toy_hash ''a'' @ toy_hash ''b''), None)] \<and>
     get_audit_trail T (toy_hash ''a'') s2 = Some (Inr (Some t2, s3)) \<and> t2 = t1 \<and>
     lists s3 t2 =
       [(toy_hash ''b'', Some right), (toy_hash (toy_hash ''a'' @ toy_hash ''b''), None),
        (toy_hash ''b'', Some right), (toy_hash (toy_hash ''a'' @ toy_hash ''b''), None)]"
proof -
  let ?C = "[''a'', ''b'']"
  let ?H = toy_hash
  have "''a'' \<in> set ?C" by simp
  from build_then_query[OF this, of ?H init_state]
  obtain T s1 j where bt: "build_tree ?H ?C init_state = Some (T, s1)"
    and l: "lists s1 = lists init_state"
    and j: "j < length ?C" "\<forall>k<j. ?H (?C ! k) \<noteq> ?H ''a''"
    and g: "\<And>\<sigma>. nodes \<sigma> = nodes s1 \<Longrightarrow> get_audit_trail T (?H ''a'') \<sigma> =
          Some (Inr (Some trail_default,
            \<sigma>\<lparr>lists := (lists \<sigma>)(trail_default :=
               lists \<sigma> trail_default @ trail_of (length ?C) ?H (map ?H ?C) j @
                 [(root_of (length ?C) ?H (map ?H ?C), None)])\<rparr>))"
    by blast
  have j0: "j = 0"
  proof (rule ccontr)
    assume "j \<noteq> 0"
    then have "0 < j" by simp
    with j(2) have "?H (?C ! 0) \<noteq> ?H ''a''" by blast
    then show False by simp
  qed
  have t: "trail_of (length ?C) ?H (map ?H ?C) 0 = [(?H ''b'', Some right)]"
    by (simp add: numeral_2_eq_2 sibling_step_def)
  have r: "root_of (length ?C) ?H (map ?H ?C) = ?H (?H ''a'' @ ?H ''b'')"
    by (simp add: numeral_2_eq_2)
  let ?X = "[(?H ''b'', Some right), (?H (?H ''a'' @ ?H ''b''), None)]"
  let ?s2 = "s1\<lparr>lists := (lists s1)(trail_default := lists s1 trail_default @ ?X)\<rparr>"
  let ?s3 = "?s2\<lparr>lists := (lists ?s2)(trail_default := lists ?s2 trail_default @ ?X)\<rparr>"
  have g1: "get_audit_trail T (?H ''a'') s1 = Some (Inr (Some trail_default, ?s2))"
    using g[of s1] unfolding j0 t r by simp
  have g2: "get_audit_trail T (?H ''a'') ?s2 = Some (Inr (Some trail_default, ?s3))"
    using g[of ?s2] unfolding j0 t r by simp
  have e: "lists s1 trail_default = []" using l by (simp add: init_state_def)
  have "build_tree ?H ?C init_state = Some (T, s1) \<and>
     get_audit_trail T (?H ''a'') s1 = Some (Inr (Some trail_default, ?s2)) \<and>
     lists ?s2 trail_default = ?X \<and>
     get_audit_trail T (?H ''a'') ?s2 = Some (Inr (Some trail_default, ?s3)) \<and>
     trail_default = trail_default \<and>
     lists ?s3 trail_default = ?X @ ?X"
    using bt g1 g2 e by simp
  then show ?thesis by (metis append_Cons append_Nil)
qed

section \<open>A level with an odd number of nodes\<close>

lemma loop_is_pair_up: "build_parents_loop H lv 0 [] \<sigma> = pair_up H lv \<sigma>"
  by (simp add: loop_pair_up split: prod.splits)

lemma level_allocated:
  "level H C s lv \<sigma> \<Longrightarrow> distinct lv \<and> (\<forall>x\<in>set lv. x < next_node \<sigma>)"
proof (induction rule: level.induct)
  case (leaf_level lv \<sigma>)
  then have "build_leaves_loop H C [] s = (lv, \<sigma>)" by (simp add: build_leaves_def)
  from build_leaves_loop_spec[OF this] show ?case by simp
next
  case (next_level lv \<sigma> ps \<sigma>')
  then have pu: "pair_up H lv \<sigma> = (ps, \<sigma>')" by (simp add: loop_is_pair_up)
  show ?case using pair_up_distinct[OF pu] pair_up_fresh[OF pu] by blast
qed


lemma odd_level_facts:
  assumes pu: "pair_up H lv \<sigma> = (ps, \<sigma>')" and d: "distinct lv"
    and b: "\<forall>x\<in>set lv. x < next_node \<sigma>" and o: "odd (length lv)"
  shows "length ps = length lv div 2 + 1"
    and "ps \<noteq> []" and "lv \<noteq> []"
    and "nodes \<sigma>' (last ps) =
      \<lparr>hash_value = H (hash_value (nodes \<sigma> (last lv)) @ hash_value (nodes \<sigma> (last lv))),
       data_value = None, parent = None,
       left_child = Some (last lv), right_child = Some (last lv)\<rparr>"
    and "nodes \<sigma>' (last lv) = (nodes \<sigma> (last lv))\<lparr>parent := Some (last ps)\<rparr>"
    and "\<forall>j<length lv div 2. nodes \<sigma>' (ps ! j) =
      \<lparr>hash_value = H (hash_value (nodes \<sigma> (lv ! (2 * j))) @ hash_value (nodes \<sigma> (lv ! (2 * j + 1)))),
       data_value = None, parent = None,
       left_child = Some (lv ! (2 * j)), right_child = Some (lv ! (2 * j + 1))\<rparr>"
proof -
  from o obtain k where k: "length lv = 2 * k + 1" by (auto elim: oddE)
  note sh = pair_up_shape[OF pu]
  show lps: "length ps = length lv div 2 + 1" using sh k by simp
  then show psne: "ps \<noteq> []" by auto
  show lvne: "lv \<noteq> []" using k by auto
  have lk: "length ps = k + 1" using lps k by simp
  have lastps: "last ps = ps ! k" using psne lk by (simp add: last_conv_nth)
  have lastlv: "last lv = lv ! (2 * k)" using lvne k by (simp add: last_conv_nth)
  have ro: "right_of lv k = lv ! (2 * k)" using k by (simp add: right_of_def)
  have "k < length ps" using lk by simp
  from pair_up_parent[OF pu d b this]
  show "nodes \<sigma>' (last ps) =
      \<lparr>hash_value = H (hash_value (nodes \<sigma> (last lv)) @ hash_value (nodes \<sigma> (last lv))),
       data_value = None, parent = None,
       left_child = Some (last lv), right_child = Some (last lv)\<rparr>"
    unfolding lastps lastlv ro .
  have "2 * k < length lv" using k by simp
  from pair_up_child[OF pu d b this]
  show "nodes \<sigma>' (last lv) = (nodes \<sigma> (last lv))\<lparr>parent := Some (last ps)\<rparr>"
    unfolding lastps lastlv by simp
  show "\<forall>j<length lv div 2. nodes \<sigma>' (ps ! j) =
      \<lparr>hash_value = H (hash_value (nodes \<sigma> (lv ! (2 * j))) @ hash_value (nodes \<sigma> (lv ! (2 * j + 1)))),
       data_value = None, parent = None,
       left_child = Some (lv ! (2 * j)), right_child = Some (lv ! (2 * j + 1))\<rparr>"
  proof (intro allI impI)
    fix j assume "j < length lv div 2"
    then have jk: "j < k" using k by simp
    then have jl: "j < length ps" using lk by simp
    have r: "right_of lv j = lv ! (2 * j + 1)" using jk k by (simp add: right_of_def)
    from pair_up_parent[OF pu d b jl]
    show "nodes \<sigma>' (ps ! j) =
      \<lparr>hash_value = H (hash_value (nodes \<sigma> (lv ! (2 * j))) @ hash_value (nodes \<sigma> (lv ! (2 * j + 1)))),
       data_value = None, parent = None,
       left_child = Some (lv ! (2 * j)), right_child = Some (lv ! (2 * j + 1))\<rparr>"
      unfolding r .
  qed
qed

lemma leaves_abc:
  "fst (build_leaves toy_hash [''a'', ''b'', ''c''] init_state) = [0, 1, 2]"
  "hash_value (nodes (snd (build_leaves toy_hash [''a'', ''b'', ''c''] init_state)) 2) = toy_hash ''c''"
  by (simp_all add: build_leaves_def new_Node_def init_state_def)

lemma level_abc:
  "level toy_hash [''a'', ''b'', ''c''] init_state [0, 1, 2]
     (snd (build_leaves toy_hash [''a'', ''b'', ''c''] init_state))"
  by (rule leaf_level) (simp add: prod_eq_iff leaves_abc)

text \<open>
  Claim C7. Let \<open>lv\<close> be a level of the construction with an odd number of nodes, more
  than one. The loop of \<^verbatim>\<open>build_parents\<close> on \<open>lv\<close> returns \<open>length lv div 2 + 1\<close> parents, all
  different. The last parent is the one created for the last node of the level: both
  of its children are that node, and its hash is \<open>H\<close> of the node's hash followed by
  the node's hash. Every parent before it, at position \<open>j\<close>, has the children
  \<open>lv ! (2 * j)\<close> and \<open>lv ! (2 * j + 1)\<close>, in this order, with the hash of their two hashes,
  and neither child is the last node: the last node is paired once, with itself.
\<close>

theorem odd_level_pairing:
  assumes "level H C s lv \<sigma>" and "odd (length lv)" and "1 < length lv"
  shows "\<exists>ps \<sigma>'. build_parents_loop H lv 0 [] \<sigma> = (ps, \<sigma>') \<and>
     length ps = length lv div 2 + 1 \<and> distinct ps \<and>
     nodes \<sigma>' (last ps) =
       \<lparr>hash_value = H (hash_value (nodes \<sigma> (last lv)) @ hash_value (nodes \<sigma> (last lv))),
        data_value = None, parent = None,
        left_child = Some (last lv), right_child = Some (last lv)\<rparr> \<and>
     (\<forall>j<length lv div 2.
        nodes \<sigma>' (ps ! j) =
          \<lparr>hash_value = H (hash_value (nodes \<sigma> (lv ! (2 * j))) @
                           hash_value (nodes \<sigma> (lv ! (2 * j + 1)))),
           data_value = None, parent = None,
           left_child = Some (lv ! (2 * j)), right_child = Some (lv ! (2 * j + 1))\<rparr> \<and>
        lv ! (2 * j) \<noteq> last lv \<and> lv ! (2 * j + 1) \<noteq> last lv)"
proof -
  obtain ps \<sigma>' where pu: "pair_up H lv \<sigma> = (ps, \<sigma>')" by (cases "pair_up H lv \<sigma>")
  from level_allocated[OF assms(1)]
  have d: "distinct lv" and b: "\<forall>x\<in>set lv. x < next_node \<sigma>" by simp_all
  note f = odd_level_facts[OF pu d b assms(2)]
  have ne: "lv ! (2 * j) \<noteq> last lv \<and> lv ! (2 * j + 1) \<noteq> last lv" if "j < length lv div 2" for j
  proof -
    from assms(2) obtain k where k: "length lv = 2 * k + 1" by (auto elim: oddE)
    have l: "last lv = lv ! (2 * k)" using f(3) k by (simp add: last_conv_nth)
    have "j < k" using that k by simp
    then show ?thesis unfolding l using d k by (simp add: nth_eq_iff_index_eq)
  qed
  have "build_parents_loop H lv 0 [] \<sigma> = (ps, \<sigma>')" using pu by (simp add: loop_is_pair_up)
  with f(1,4,6) ne pair_up_distinct[OF pu] show ?thesis by simp
qed

text \<open>
  The leaves of the chunks \<open>a, b, c\<close>: two parents, the second made of the leaf of \<open>c\<close>
  twice.
\<close>

theorem odd_level_pairing_witness:
  "\<exists>ps \<sigma>'. build_parents_loop toy_hash [0, 1, 2] 0 []
       (snd (build_leaves toy_hash [''a'', ''b'', ''c''] init_state)) = (ps, \<sigma>') \<and>
     length ps = 2 \<and>
     nodes \<sigma>' (last ps) =
       \<lparr>hash_value = toy_hash (toy_hash ''c'' @ toy_hash ''c''),
        data_value = None, parent = None, left_child = Some 2, right_child = Some 2\<rparr>"
  using odd_level_pairing[OF level_abc] by (auto simp: leaves_abc)



end
